theory Spec2Isabelle
  imports Complex_Main
begin

section \<open>Tensors\<close>

text \<open>
  The radial transform of \<^verbatim>\<open>pyro/distributions/transforms/radial.py\<close> is written with
  tensor operations of the tensor library. A tensor with at least one dimension is a
  nesting of batches around vectors: the last dimension is a list of entries, every
  earlier dimension a \<open>Batch\<close>. Entries are real numbers: the rounding of
  machine floats is modelled where a property depends on it, in the section on
  floating-point arithmetic; overflow and not-a-number values are outside this model. A tensor whose last
  dimension has been summed away carries one number per batch element.
\<close>

datatype 'a batched = Leaf 'a | Batch "'a batched list"

type_synonym tensor = "real list batched"

type_synonym scalars = "real batched"

text \<open>
  What the code can raise: the tensor library's error for shapes that do not broadcast,
  the \<open>KeyError\<close> of \<open>_inverse\<close>, and the error of unpacking a sequence that has not
  exactly three members.
\<close>

datatype error = RuntimeError | KeyError | ValueError

fun sequence :: "('e + 'a) list \<Rightarrow> 'e + 'a list" where
  "sequence [] = Inr []"
| "sequence (r # rs) =
     (case r of
        Inl e \<Rightarrow> Inl e
      | Inr v \<Rightarrow> (case sequence rs of Inl e \<Rightarrow> Inl e | Inr vs \<Rightarrow> Inr (v # vs)))"

definition sbind :: "'e + 'a \<Rightarrow> ('a \<Rightarrow> 'e + 'b) \<Rightarrow> 'e + 'b" where
  "sbind r k = (case r of Inl e \<Rightarrow> Inl e | Inr v \<Rightarrow> k v)"

text \<open>The number of batch dimensions around the last one.\<close>

fun batch_rank :: "'a batched \<Rightarrow> nat" where
  "batch_rank (Leaf v) = 0"
| "batch_rank (Batch []) = 1"
| "batch_rank (Batch (t # ts)) = Suc (batch_rank t)"

text \<open>\<open>t.size(-1)\<close>: the size of the last dimension.\<close>

fun size_last :: "tensor \<Rightarrow> nat" where
  "size_last (Leaf v) = length v"
| "size_last (Batch []) = 0"
| "size_last (Batch (t # ts)) = size_last t"

text \<open>
  Broadcasting of an elementwise binary operation along the last dimension: equal sizes
  pair up, a size of one is repeated, anything else is an error.
\<close>

definition broadcast_last ::
  "(real \<Rightarrow> real \<Rightarrow> real) \<Rightarrow> real list \<Rightarrow> real list \<Rightarrow> error + real list" where
  "broadcast_last f xs ys =
     (if length xs = length ys then Inr (map2 f xs ys)
      else if length xs = 1 then Inr (map (f (hd xs)) ys)
      else if length ys = 1 then Inr (map (\<lambda>x. f x (hd ys)) xs)
      else Inl RuntimeError)"

text \<open>
  Broadcasting over the batch dimensions: dimensions are aligned from the last one, so
  the operand with fewer dimensions is repeated along the outer dimensions of the other;
  at equal rank the batches pair up, or a batch of one is repeated.
\<close>

function binop :: "(real \<Rightarrow> real \<Rightarrow> real) \<Rightarrow> tensor \<Rightarrow> tensor \<Rightarrow> error + tensor" where
  "binop f (Leaf xs) (Leaf ys) = map_sum id Leaf (broadcast_last f xs ys)"
| "binop f (Leaf xs) (Batch us) =
     map_sum id Batch (sequence (map (binop f (Leaf xs)) us))"
| "binop f (Batch ts) (Leaf ys) =
     map_sum id Batch (sequence (map (\<lambda>t. binop f t (Leaf ys)) ts))"
| "binop f (Batch ts) (Batch us) =
     (if batch_rank (Batch ts) < batch_rank (Batch us)
        then map_sum id Batch (sequence (map (binop f (Batch ts)) us))
      else if batch_rank (Batch us) < batch_rank (Batch ts)
        then map_sum id Batch (sequence (map (\<lambda>t. binop f t (Batch us)) ts))
      else if length ts = length us
        then map_sum id Batch (sequence (map (\<lambda>(t, u). binop f t u) (zip ts us)))
      else if length ts = 1
        then map_sum id Batch (sequence (map (binop f (hd ts)) us))
      else if length us = 1
        then map_sum id Batch (sequence (map (\<lambda>t. binop f t (hd us)) ts))
      else Inl RuntimeError)"
  by pat_completeness auto
termination
proof (relation "measure (\<lambda>(f, a, b). size a + size b)", goal_cases)
  case 1
  show ?case by simp
next
  case (2 f xs us u)
  then have "size u \<le> size_list size us"
    by (simp add: size_list_estimation')
  then show ?case by simp
next
  case (3 f ts ys t)
  then have "size t \<le> size_list size ts"
    by (simp add: size_list_estimation')
  then show ?case by simp
next
  case (4 f ts us u)
  then have "size u \<le> size_list size us"
    by (simp add: size_list_estimation')
  then show ?case by simp
next
  case (5 f ts us t)
  then have "size t \<le> size_list size ts"
    by (simp add: size_list_estimation')
  then show ?case by simp
next
  case (6 f ts us p t u)
  then have "t \<in> set ts" "u \<in> set us"
    by (auto dest: set_zip_leftD set_zip_rightD)
  then have "size t \<le> size_list size ts" "size u \<le> size_list size us"
    by (simp_all add: size_list_estimation')
  then show ?case by simp
next
  case (7 f ts us u)
  then have "hd ts \<in> set ts" by (cases ts) auto
  then have "size (hd ts) \<le> size_list size ts"
    by (simp add: size_list_estimation')
  moreover from 7 have "size u \<le> size_list size us"
    by (simp add: size_list_estimation')
  ultimately show ?case by simp
next
  case (8 f ts us t)
  then have "hd us \<in> set us" by (cases us) auto
  then have "size (hd us) \<le> size_list size us"
    by (simp add: size_list_estimation')
  moreover from 8 have "size t \<le> size_list size ts"
    by (simp add: size_list_estimation')
  ultimately show ?case by simp
qed

definition add_t :: "tensor \<Rightarrow> tensor \<Rightarrow> error + tensor" where
  "add_t = binop (+)"

definition sub_t :: "tensor \<Rightarrow> tensor \<Rightarrow> error + tensor" where
  "sub_t = binop (-)"

definition mul_t :: "tensor \<Rightarrow> tensor \<Rightarrow> error + tensor" where
  "mul_t = binop (*)"

text \<open>Elementwise operations of one tensor keep its shape.\<close>

definition pointwise :: "(real \<Rightarrow> real) \<Rightarrow> tensor \<Rightarrow> tensor" where
  "pointwise g = map_batched (map g)"

text \<open>
  \<open>F.softplus\<close> with the library's defaults \<open>beta = 1\<close>, \<open>threshold = 20\<close>: the function
  \<open>log (1 + exp x)\<close>, replaced by \<open>x\<close> itself above the threshold.
\<close>

definition softplus :: "real \<Rightarrow> real" where
  "softplus v = (if v > 20 then v else ln (1 + exp v))"

definition log1p :: "real \<Rightarrow> real" where
  "log1p v = ln (1 + v)"

text \<open>\<open>t.norm(dim=-1, keepdim=True)\<close>: the Euclidean norm, kept as a last dimension of size one.\<close>

definition norm_last :: "tensor \<Rightarrow> tensor" where
  "norm_last = map_batched (\<lambda>v. [sqrt (sum_list (map (\<lambda>d. d\<^sup>2) v))])"

text \<open>\<open>t.sum(-1)\<close>: the last dimension is summed away.\<close>

definition sum_last :: "tensor \<Rightarrow> scalars" where
  "sum_last = map_batched sum_list"

text \<open>A Python number times a tensor, as in \<open>(D - 1) * t\<close>.\<close>

definition scale :: "real \<Rightarrow> tensor \<Rightarrow> tensor" where
  "scale c = pointwise (\<lambda>v. c * v)"

section \<open>Objects\<close>

text \<open>
  The cache of the transform compares tensors with \<open>is\<close>, so a tensor object is its
  contents together with an identity. Identities are handed out by a counter; a
  tensor created by an operation gets the next one, which no other live object has.
\<close>

record tobj =
  oid :: nat
  dat :: tensor

text \<open>
  An instance of \<open>ConditionedRadial\<close> after \<open>__init__\<close> (lines 24 to 29): the three
  parameters, the one-entry cache \<open>_cached_x_y\<close> of the parent class (created by
  \<open>super().__init__(cache_size=1)\<close> as the pair \<open>None, None\<close>, here \<open>None\<close>) and
  \<open>_cached_logDetJ\<close>.
\<close>

record ConditionedRadial =
  x0 :: tensor
  alpha_prime :: tensor
  beta_prime :: tensor
  cached_x_y :: "(tobj \<times> tobj) option"
  cached_logDetJ :: "scalars option"

definition ConditionedRadial_init :: "tensor \<Rightarrow> tensor \<Rightarrow> tensor \<Rightarrow> ConditionedRadial" where
  "ConditionedRadial_init p0 a b =
     \<lparr>x0 = p0, alpha_prime = a, beta_prime = b, cached_x_y = None, cached_logDetJ = None\<rparr>"

section \<open>The forward map\<close>

text \<open>
  Lines 47 and 48 of \<open>_call\<close>: \<open>alpha = F.softplus(self.alpha_prime)\<close> and
  \<open>beta = -alpha + F.softplus(self.beta_prime)\<close>.
\<close>

definition derived_parameters :: "tensor \<Rightarrow> tensor \<Rightarrow> error + tensor \<times> tensor" where
  "derived_parameters ap bp =
     (let alpha = pointwise softplus ap in
      sbind (add_t (pointwise uminus alpha) (pointwise softplus bp)) (\<lambda>beta.
      Inr (alpha, beta)))"

text \<open>
  Lines 51 to 58 of \<open>_call\<close>, up to the value that is stored in \<open>_cached_logDetJ\<close>:
  the difference to the center, \<open>beta * h\<close> and the log-determinant.
\<close>

definition radial_terms ::
  "tensor \<Rightarrow> tensor \<Rightarrow> tensor \<Rightarrow> tensor \<Rightarrow> error + tensor \<times> tensor \<times> scalars" where
  "radial_terms c ap bp x =
     sbind (derived_parameters ap bp) (\<lambda>(alpha, beta).
     sbind (sub_t x c) (\<lambda>diff.
     let r = norm_last diff in
     sbind (add_t alpha r) (\<lambda>s.
     let h = pointwise (\<lambda>v. 1 / v) s;
         h_prime = pointwise uminus (pointwise (\<lambda>v. v\<^sup>2) h) in
     sbind (mul_t beta h) (\<lambda>beta_h.
     sbind (mul_t beta h_prime) (\<lambda>bhp.
     sbind (mul_t bhp r) (\<lambda>bhpr.
     sbind (add_t beta_h bhpr) (\<lambda>inner.
     sbind (add_t (scale (of_int (int (size_last c) - 1)) (pointwise log1p beta_h))
                  (pointwise log1p inner)) (\<lambda>ld.
     Inr (diff, beta_h, sum_last ld)))))))))"

text \<open>
  \<open>_call\<close> (lines 37 to 59). The log-determinant is stored before the result
  \<open>x + beta_h * diff\<close> is computed; the result is a new tensor object. The third
  component is the identity counter after the call.
\<close>

definition ConditionedRadial_call ::
  "ConditionedRadial \<Rightarrow> nat \<Rightarrow> tobj \<Rightarrow> (error + tobj) \<times> ConditionedRadial \<times> nat" where
  "ConditionedRadial_call self nid x =
     (case radial_terms (x0 self) (alpha_prime self) (beta_prime self) (dat x) of
        Inl e \<Rightarrow> (Inl e, self, nid)
      | Inr (diff, beta_h, logDetJ) \<Rightarrow>
          (let self' = self\<lparr>cached_logDetJ := Some logDetJ\<rparr> in
           case sbind (mul_t beta_h diff) (\<lambda>bd. add_t (dat x) bd) of
             Inl e \<Rightarrow> (Inl e, self', nid)
           | Inr y \<Rightarrow> (Inr \<lparr>oid = nid, dat = y\<rparr>, self', Suc nid)))"

text \<open>
  \<open>_inverse\<close> (lines 61 to 71) raises \<open>KeyError\<close> whatever it is given.
\<close>

definition ConditionedRadial_inverse ::
  "ConditionedRadial \<Rightarrow> nat \<Rightarrow> tobj \<Rightarrow> (error + tobj) \<times> ConditionedRadial \<times> nat" where
  "ConditionedRadial_inverse self nid y = (Inl KeyError, self, nid)"

section \<open>The cache of the parent class\<close>

text \<open>
  \<open>self(x)\<close> in \<open>log_abs_det_jacobian\<close> is \<open>__call__\<close> of the parent class
  \<open>torch.distributions.Transform\<close>, which is library code and not among the sources.
  With \<open>cache_size = 1\<close> the library's method is
  \<^verbatim>\<open>
    x_old, y_old = self._cached_x_y
    if x is x_old:
        return y_old
    y = self._call(x)
    self._cached_x_y = x, y
    return y
  \<close>
\<close>

definition is_cached_x :: "ConditionedRadial \<Rightarrow> tobj \<Rightarrow> bool" where
  "is_cached_x self x =
     (case cached_x_y self of None \<Rightarrow> False | Some (x_old, y_old) \<Rightarrow> oid x = oid x_old)"

definition is_cached_y :: "ConditionedRadial \<Rightarrow> tobj \<Rightarrow> bool" where
  "is_cached_y self y =
     (case cached_x_y self of None \<Rightarrow> False | Some (x_old, y_old) \<Rightarrow> oid y = oid y_old)"

definition Transform_call ::
  "ConditionedRadial \<Rightarrow> nat \<Rightarrow> tobj \<Rightarrow> (error + tobj) \<times> ConditionedRadial \<times> nat" where
  "Transform_call self nid x =
     (case cached_x_y self of
        Some (x_old, y_old) \<Rightarrow>
          if oid x = oid x_old then (Inr y_old, self, nid)
          else (case ConditionedRadial_call self nid x of
                  (Inl e, self', nid') \<Rightarrow> (Inl e, self', nid')
                | (Inr y, self', nid') \<Rightarrow> (Inr y, self'\<lparr>cached_x_y := Some (x, y)\<rparr>, nid'))
      | None \<Rightarrow>
          (case ConditionedRadial_call self nid x of
             (Inl e, self', nid') \<Rightarrow> (Inl e, self', nid')
           | (Inr y, self', nid') \<Rightarrow> (Inr y, self'\<lparr>cached_x_y := Some (x, y)\<rparr>, nid')))"

text \<open>
  \<open>log_abs_det_jacobian\<close> (lines 73 to 83): unless both arguments are the cached
  objects, \<open>self(x)\<close> is called first; the value of \<open>_cached_logDetJ\<close> is returned.
\<close>

definition log_abs_det_jacobian ::
  "ConditionedRadial \<Rightarrow> nat \<Rightarrow> tobj \<Rightarrow> tobj \<Rightarrow>
     (error + scalars option) \<times> ConditionedRadial \<times> nat" where
  "log_abs_det_jacobian self nid x y =
     (if \<not> is_cached_x self x \<or> \<not> is_cached_y self y
      then (case Transform_call self nid x of
              (Inl e, self', nid') \<Rightarrow> (Inl e, self', nid')
            | (Inr y', self', nid') \<Rightarrow> (Inr (cached_logDetJ self'), self', nid'))
      else (Inr (cached_logDetJ self), self, nid))"

section \<open>What the specification says\<close>

text \<open>
  The formulas of the specification for one vector \<open>v\<close>, a center \<open>c\<close> and the two raw
  scalars: \<open>alpha = softplus(alpha_prime)\<close>, \<open>beta = softplus(beta_prime) - alpha\<close>,
  \<open>r\<close> the Euclidean norm of \<open>v - c\<close>, \<open>h = 1/(alpha + r)\<close>, \<open>h' = - h\<^sup>2\<close>,
  \<open>y = v + beta h (v - c)\<close> and
  \<open>logdet = (D - 1) log1p(beta h) + log1p(beta h + beta h' r)\<close>.
\<close>

definition spec_alpha :: "real \<Rightarrow> real" where
  "spec_alpha a = softplus a"

definition spec_beta :: "real \<Rightarrow> real \<Rightarrow> real" where
  "spec_beta a b = softplus b - spec_alpha a"

definition spec_r :: "real list \<Rightarrow> real list \<Rightarrow> real" where
  "spec_r c v = sqrt (\<Sum>i<length c. (v ! i - c ! i)\<^sup>2)"

definition spec_h :: "real list \<Rightarrow> real \<Rightarrow> real list \<Rightarrow> real" where
  "spec_h c a v = 1 / (spec_alpha a + spec_r c v)"

definition spec_forward :: "real list \<Rightarrow> real \<Rightarrow> real \<Rightarrow> real list \<Rightarrow> real list" where
  "spec_forward c a b v =
     map (\<lambda>i. v ! i + spec_beta a b * spec_h c a v * (v ! i - c ! i)) [0..<length c]"

definition spec_logdet :: "real list \<Rightarrow> real \<Rightarrow> real \<Rightarrow> real list \<Rightarrow> real" where
  "spec_logdet c a b v =
     (let h = spec_h c a v; h' = - (h\<^sup>2); beta = spec_beta a b in
      (real (length c) - 1) * log1p (beta * h) + log1p (beta * h + beta * h' * spec_r c v))"


section \<open>The intermediate tensors, vector by vector\<close>

text \<open>
  For one vector \<open>v\<close> of the input and a center \<open>c\<close>: the entries that lines 51 to 58
  compute, with \<open>al\<close> and \<open>be\<close> the entries of \<open>alpha\<close> and \<open>beta\<close>.
\<close>

definition leaf_diff :: "real list \<Rightarrow> real list \<Rightarrow> real list" where
  "leaf_diff c v = map2 (-) v c"

definition leaf_r :: "real list \<Rightarrow> real list \<Rightarrow> real" where
  "leaf_r c v = sqrt (sum_list (map (\<lambda>d. d\<^sup>2) (leaf_diff c v)))"

definition leaf_h :: "real list \<Rightarrow> real \<Rightarrow> real list \<Rightarrow> real" where
  "leaf_h c al v = 1 / (al + leaf_r c v)"

definition leaf_logdet :: "real list \<Rightarrow> real \<Rightarrow> real \<Rightarrow> real list \<Rightarrow> real" where
  "leaf_logdet c al be v =
     (real (length c) - 1) * log1p (be * leaf_h c al v)
     + log1p (be * leaf_h c al v + be * - ((leaf_h c al v)\<^sup>2) * leaf_r c v)"

text \<open>The tensor that \<open>_call\<close> returns, without its identity.\<close>

definition forward_value :: "ConditionedRadial \<Rightarrow> tensor \<Rightarrow> error + tensor" where
  "forward_value self t =
     map_sum id dat (fst (ConditionedRadial_call self 0 \<lparr>oid = 0, dat = t\<rparr>))"

section \<open>Instances in a store\<close>

text \<open>
  \<open>ConditionalRadial.condition\<close> constructs instances, and each instance has a cache
  of its own: instances live in a store, under references taken from the identity
  counter. The parameter network \<open>nn\<close> is a collaborator outside the sources: a
  callable with a state of its own (\<open>net\<close>) that returns a sequence of tensors.
\<close>

record 'n world =
  next_id :: nat
  engines :: "nat \<rightharpoonup> ConditionedRadial"
  net :: 'n

record 'n ConditionalRadial =
  nn :: "'n \<Rightarrow> tensor \<Rightarrow> tensor list \<times> 'n"

text \<open>
  \<open>condition\<close> (lines 158 to 160): \<open>x0, alpha_prime, beta_prime = self.nn(context)\<close>
  raises unless the network returns three members; then a new \<open>ConditionedRadial\<close> is
  constructed and returned.
\<close>

definition condition ::
  "'n ConditionalRadial \<Rightarrow> tensor \<Rightarrow> 'n world \<Rightarrow>
     (error + nat) \<times> 'n ConditionalRadial \<times> 'n world" where
  "condition self context w =
     (let (out, s) = nn self (net w) context; w1 = w\<lparr>net := s\<rparr> in
      case out of
        [p0, a, b] \<Rightarrow>
          (Inr (next_id w1), self,
           w1\<lparr>engines := (engines w1)(next_id w1 \<mapsto> ConditionedRadial_init p0 a b),
              next_id := Suc (next_id w1)\<rparr>)
      | _ \<Rightarrow> (Inl ValueError, self, w1))"

text \<open>
  A method of the instance at a reference, run in the store. A reference without an
  instance gives \<open>None\<close>.
\<close>

definition call_method ::
  "nat \<Rightarrow> (ConditionedRadial \<Rightarrow> nat \<Rightarrow> 'r \<times> ConditionedRadial \<times> nat) \<Rightarrow> 'n world \<Rightarrow>
     ('r \<times> 'n world) option" where
  "call_method ref m w =
     (case engines w ref of
        None \<Rightarrow> None
      | Some self \<Rightarrow>
          (case m self (next_id w) of
             (r, self', nid') \<Rightarrow>
               Some (r, w\<lparr>engines := (engines w)(ref \<mapsto> self'), next_id := nid'\<rparr>)))"

definition store_ok :: "'n world \<Rightarrow> bool" where
  "store_ok w = (\<forall>r \<in> dom (engines w). r < next_id w)"

section \<open>Floating-point arithmetic\<close>

text \<open>
  The tensors of the code hold binary floating-point numbers, \<open>binary32\<close> unless the
  caller chooses otherwise. Where the claim is an identity between formulas, the real
  numbers above say what is computed up to rounding. Whether \<open>beta > - alpha\<close> holds
  after lines 47 and 48 depends on the rounding itself, so these two lines are also
  modelled in floating-point arithmetic.

  A format is its precision (the bits of the significand, the hidden one included) and
  its least exponent. A finite floating-point number is the real number it stands for.
  An operation returns its exact result rounded to the nearest number of the format,
  ties to the even significand, with gradual underflow below the least exponent.
  Overflow is not modelled: no value below comes near the largest number. The
  library's \<open>exp\<close> and \<open>log1p\<close> are taken as correctly rounded.
\<close>

record format =
  prec :: nat
  emin :: int

definition binary32 :: format where
  "binary32 = \<lparr>prec = 24, emin = - 126\<rparr>"

definition binary64 :: format where
  "binary64 = \<lparr>prec = 53, emin = - 1022\<rparr>"

text \<open>Rounding to the nearest integer, ties to even.\<close>

definition round_even :: "real \<Rightarrow> int" where
  "round_even t =
     (let f = \<lfloor>t\<rfloor> in
      if t - of_int f < 1 / 2 then f
      else if 1 / 2 < t - of_int f then f + 1
      else if even f then f else f + 1)"

text \<open>
  The distance between neighbouring numbers of the format around \<open>x\<close>: the exponent of
  \<open>x\<close>, or the least exponent for a subnormal \<open>x\<close>, less the bits after the leading one.
\<close>

definition ulp :: "format \<Rightarrow> real \<Rightarrow> real" where
  "ulp fmt x = 2 powr of_int (max \<lfloor>log 2 \<bar>x\<bar>\<rfloor> (emin fmt) - (int (prec fmt) - 1))"

text \<open>The number of the format that an exact result \<open>x\<close> is rounded to.\<close>

definition fl :: "format \<Rightarrow> real \<Rightarrow> real" where
  "fl fmt x = (if x = 0 then 0 else of_int (round_even (x / ulp fmt x)) * ulp fmt x)"

text \<open>
  \<open>F.softplus\<close> on floating-point numbers: the library computes \<open>log1p(exp(x))\<close>
  below the threshold, each of the two functions rounding its result.
\<close>

definition fl_softplus :: "format \<Rightarrow> real \<Rightarrow> real" where
  "fl_softplus fmt v = (if v > 20 then v else fl fmt (ln (1 + fl fmt (exp v))))"

text \<open>
  Lines 47 and 48 of \<open>_call\<close> in the arithmetic of a format. The negation is exact; the
  addition rounds.
\<close>

definition derived_parameters_fl :: "format \<Rightarrow> tensor \<Rightarrow> tensor \<Rightarrow> error + tensor \<times> tensor" where
  "derived_parameters_fl fmt ap bp =
     (let alpha = pointwise (fl_softplus fmt) ap in
      sbind (binop (\<lambda>u v. fl fmt (u + v)) (pointwise uminus alpha)
               (pointwise (fl_softplus fmt) bp)) (\<lambda>beta.
      Inr (alpha, beta)))"

section \<open>Broadcasting on tensors of one shape\<close>

lemma sequence_map_Inr:
  "(\<And>x. x \<in> set xs \<Longrightarrow> F x = Inr (G x)) \<Longrightarrow> sequence (map F xs) = Inr (map G xs)"
  by (induction xs) simp_all

lemma batch_rank_map_batched: "batch_rank (map_batched p t) = batch_rank t"
proof (induction t)
  case (Leaf v)
  show ?case by simp
next
  case (Batch ts)
  show ?case
  proof (cases ts)
    case Nil
    then show ?thesis by simp
  next
    case (Cons u us)
    with Batch show ?thesis by simp
  qed
qed

lemma broadcast_last_same:
  "length xs = length ys \<Longrightarrow> broadcast_last f xs ys = Inr (map2 f xs ys)"
  by (simp add: broadcast_last_def)

lemma broadcast_last_single_left: "broadcast_last f [a] ys = Inr (map (f a) ys)"
proof (cases "length ys = 1")
  case True
  then obtain y where "ys = [y]" by (cases ys) auto
  then show ?thesis by (simp add: broadcast_last_def)
next
  case False
  then show ?thesis by (auto simp add: broadcast_last_def)
qed

lemma broadcast_last_single_right: "broadcast_last f xs [b] = Inr (map (\<lambda>x. f x b) xs)"
proof (cases "length xs = 1")
  case True
  then obtain y where "xs = [y]" by (cases xs) auto
  then show ?thesis by (simp add: broadcast_last_def)
next
  case False
  then show ?thesis by (auto simp add: broadcast_last_def)
qed

lemma binop_Leaf_left:
  "(\<And>v. v \<in> set_batched t \<Longrightarrow> broadcast_last f xs (q v) = Inr (g v)) \<Longrightarrow>
   binop f (Leaf xs) (map_batched q t) = Inr (map_batched g t)"
proof (induction t)
  case (Leaf v)
  then show ?case by simp
next
  case (Batch ts)
  have "sequence (map (\<lambda>u. binop f (Leaf xs) (map_batched q u)) ts) = Inr (map (map_batched g) ts)"
    by (rule sequence_map_Inr) (use Batch in auto)
  then show ?case by (simp add: comp_def)
qed

lemma binop_Leaf_right:
  "(\<And>v. v \<in> set_batched t \<Longrightarrow> broadcast_last f (p v) ys = Inr (g v)) \<Longrightarrow>
   binop f (map_batched p t) (Leaf ys) = Inr (map_batched g t)"
proof (induction t)
  case (Leaf v)
  then show ?case by simp
next
  case (Batch ts)
  have "sequence (map (\<lambda>u. binop f (map_batched p u) (Leaf ys)) ts) = Inr (map (map_batched g) ts)"
    by (rule sequence_map_Inr) (use Batch in auto)
  then show ?case by (simp add: comp_def)
qed

lemma binop_same_shape:
  "(\<And>v. v \<in> set_batched t \<Longrightarrow> broadcast_last f (p v) (q v) = Inr (g v)) \<Longrightarrow>
   binop f (map_batched p t) (map_batched q t) = Inr (map_batched g t)"
proof (induction t)
  case (Leaf v)
  then show ?case by simp
next
  case (Batch ts)
  have z: "zip (map (map_batched p) ts) (map (map_batched q) ts)
             = map (\<lambda>u. (map_batched p u, map_batched q u)) ts"
    by (induction ts) simp_all
  have r: "batch_rank (Batch (map (map_batched p) ts)) = batch_rank (Batch (map (map_batched q) ts))"
    using batch_rank_map_batched [of p "Batch ts"] batch_rank_map_batched [of q "Batch ts"]
    by simp
  have "sequence (map (\<lambda>u. binop f (map_batched p u) (map_batched q u)) ts)
          = Inr (map (map_batched g) ts)"
    by (rule sequence_map_Inr) (use Batch in auto)
  then show ?case using r by (simp add: z comp_def)
qed


lemma derived_parameters_scalar:
  "derived_parameters (Leaf [a]) (Leaf [b])
     = Inr (Leaf [spec_alpha a], Leaf [spec_beta a b])"
  by (simp add: derived_parameters_def pointwise_def add_t_def sbind_def broadcast_last_def
      spec_alpha_def spec_beta_def)

lemma radial_terms_leafwise:
  assumes len: "\<And>v. v \<in> set_batched x \<Longrightarrow> length v = length c"
    and par: "derived_parameters ap bp = Inr (Leaf [al], Leaf [be])"
  shows "radial_terms (Leaf c) ap bp x
           = Inr (map_batched (leaf_diff c) x,
                  map_batched (\<lambda>v. [be * leaf_h c al v]) x,
                  map_batched (leaf_logdet c al be) x)"
proof -
  have 1: "sub_t x (Leaf c) = Inr (map_batched (leaf_diff c) x)"
    unfolding sub_t_def
    using binop_Leaf_right [of x "(-)" "\<lambda>v. v" c "leaf_diff c"] len
    by (simp add: broadcast_last_same leaf_diff_def batched.map_ident)
  have 2: "norm_last (map_batched (leaf_diff c) x) = map_batched (\<lambda>v. [leaf_r c v]) x"
    by (simp add: norm_last_def batched.map_comp comp_def leaf_r_def)
  have 3: "add_t (Leaf [al]) (map_batched (\<lambda>v. [leaf_r c v]) x)
             = Inr (map_batched (\<lambda>v. [al + leaf_r c v]) x)"
    unfolding add_t_def
    by (rule binop_Leaf_left) (simp add: broadcast_last_single_left)
  have 4: "pointwise (\<lambda>v. 1 / v) (map_batched (\<lambda>v. [al + leaf_r c v]) x)
             = map_batched (\<lambda>v. [leaf_h c al v]) x"
    by (simp add: pointwise_def batched.map_comp comp_def leaf_h_def)
  have 5: "pointwise uminus (pointwise (\<lambda>v. v\<^sup>2) (map_batched (\<lambda>v. [leaf_h c al v]) x))
             = map_batched (\<lambda>v. [- ((leaf_h c al v)\<^sup>2)]) x"
    by (simp add: pointwise_def batched.map_comp comp_def)
  have 6: "mul_t (Leaf [be]) (map_batched (\<lambda>v. [leaf_h c al v]) x)
             = Inr (map_batched (\<lambda>v. [be * leaf_h c al v]) x)"
    unfolding mul_t_def
    by (rule binop_Leaf_left) (simp add: broadcast_last_single_left)
  have 7: "mul_t (Leaf [be]) (map_batched (\<lambda>v. [- ((leaf_h c al v)\<^sup>2)]) x)
             = Inr (map_batched (\<lambda>v. [be * - ((leaf_h c al v)\<^sup>2)]) x)"
    unfolding mul_t_def
    by (rule binop_Leaf_left) (simp add: broadcast_last_single_left)
  have 8: "mul_t (map_batched (\<lambda>v. [be * - ((leaf_h c al v)\<^sup>2)]) x)
                 (map_batched (\<lambda>v. [leaf_r c v]) x)
             = Inr (map_batched (\<lambda>v. [be * - ((leaf_h c al v)\<^sup>2) * leaf_r c v]) x)"
    unfolding mul_t_def
    by (rule binop_same_shape) (simp add: broadcast_last_single_left)
  have 9: "add_t (map_batched (\<lambda>v. [be * leaf_h c al v]) x)
                 (map_batched (\<lambda>v. [be * - ((leaf_h c al v)\<^sup>2) * leaf_r c v]) x)
             = Inr (map_batched (\<lambda>v. [be * leaf_h c al v
                                         + be * - ((leaf_h c al v)\<^sup>2) * leaf_r c v]) x)"
    unfolding add_t_def
    by (rule binop_same_shape) (simp add: broadcast_last_single_left)
  have 10: "add_t (scale (of_int (int (size_last (Leaf c)) - 1))
                     (pointwise log1p (map_batched (\<lambda>v. [be * leaf_h c al v]) x)))
                  (pointwise log1p (map_batched (\<lambda>v. [be * leaf_h c al v
                                         + be * - ((leaf_h c al v)\<^sup>2) * leaf_r c v]) x))
             = Inr (map_batched (\<lambda>v. [leaf_logdet c al be v]) x)"
    unfolding add_t_def scale_def pointwise_def batched.map_comp comp_def
    by (rule binop_same_shape) (simp add: broadcast_last_single_left leaf_logdet_def)
  have 11: "sum_last (map_batched (\<lambda>v. [leaf_logdet c al be v]) x)
              = map_batched (leaf_logdet c al be) x"
    by (simp add: sum_last_def batched.map_comp comp_def)
  show ?thesis
    unfolding radial_terms_def par sbind_def sum.case prod.case 1 Let_def 2 3 4 5 6 7 8 9 10 11
    by (rule refl)
qed


lemma leaf_r_spec: "length v = length c \<Longrightarrow> leaf_r c v = spec_r c v"
proof -
  assume len: "length v = length c"
  have "sum_list (map (\<lambda>d. d\<^sup>2) (leaf_diff c v))
          = (\<Sum>i = 0..<length c. (map (\<lambda>d. d\<^sup>2) (leaf_diff c v)) ! i)"
    using sum_list_sum_nth [of "map (\<lambda>d. d\<^sup>2) (leaf_diff c v)"] len
    by (simp add: leaf_diff_def)
  also have "\<dots> = (\<Sum>i = 0..<length c. (v ! i - c ! i)\<^sup>2)"
    using len by (intro sum.cong) (simp_all add: leaf_diff_def)
  finally show ?thesis
    by (simp add: leaf_r_def spec_r_def atLeast0LessThan)
qed

lemma leaf_h_spec: "length v = length c \<Longrightarrow> leaf_h c (spec_alpha a) v = spec_h c a v"
  by (simp add: leaf_h_def spec_h_def leaf_r_spec)

lemma leaf_logdet_spec:
  "length v = length c \<Longrightarrow>
   leaf_logdet c (spec_alpha a) (spec_beta a b) v = spec_logdet c a b v"
  by (simp add: leaf_logdet_def spec_logdet_def Let_def leaf_h_spec leaf_r_spec)

lemma leaf_forward_spec:
  assumes "length v = length c"
  shows "map2 (+) v (map ((*) (spec_beta a b * leaf_h c (spec_alpha a) v)) (leaf_diff c v))
           = spec_forward c a b v"
  using assms
  by (intro nth_equalityI) (simp_all add: spec_forward_def leaf_diff_def leaf_h_spec)

lemma forward_value_leafwise:
  assumes len: "\<And>v. v \<in> set_batched x \<Longrightarrow> length v = length c"
  shows "sbind (mul_t (map_batched (\<lambda>v. [k v]) x) (map_batched (leaf_diff c) x))
               (\<lambda>bd. add_t x bd)
           = Inr (map_batched (\<lambda>v. map2 (+) v (map ((*) (k v)) (leaf_diff c v))) x)"
proof -
  have 1: "mul_t (map_batched (\<lambda>v. [k v]) x) (map_batched (leaf_diff c) x)
             = Inr (map_batched (\<lambda>v. map ((*) (k v)) (leaf_diff c v)) x)"
    unfolding mul_t_def
    by (rule binop_same_shape) (simp add: broadcast_last_single_left)
  have 2: "add_t x (map_batched (\<lambda>v. map ((*) (k v)) (leaf_diff c v)) x)
             = Inr (map_batched (\<lambda>v. map2 (+) v (map ((*) (k v)) (leaf_diff c v))) x)"
    unfolding add_t_def
    using binop_same_shape [of x "(+)" "\<lambda>v. v" "\<lambda>v. map ((*) (k v)) (leaf_diff c v)"
        "\<lambda>v. map2 (+) v (map ((*) (k v)) (leaf_diff c v))"] len
    by (simp add: broadcast_last_same leaf_diff_def batched.map_ident)
  show ?thesis by (simp add: sbind_def 1 2)
qed

lemma call_standard:
  assumes c: "x0 self = Leaf c" and a: "alpha_prime self = Leaf [a]"
    and b: "beta_prime self = Leaf [b]"
    and len: "\<And>v. v \<in> set_batched (dat x) \<Longrightarrow> length v = length c"
  shows "ConditionedRadial_call self nid x
           = (Inr \<lparr>oid = nid, dat = map_batched (spec_forward c a b) (dat x)\<rparr>,
              self\<lparr>cached_logDetJ := Some (map_batched (spec_logdet c a b) (dat x))\<rparr>,
              Suc nid)"
proof -
  let ?al = "spec_alpha a" and ?be = "spec_beta a b"
  have t: "radial_terms (Leaf c) (Leaf [a]) (Leaf [b]) (dat x)
             = Inr (map_batched (leaf_diff c) (dat x),
                    map_batched (\<lambda>v. [?be * leaf_h c ?al v]) (dat x),
                    map_batched (leaf_logdet c ?al ?be) (dat x))"
    by (rule radial_terms_leafwise [OF len derived_parameters_scalar])
  have ld: "map_batched (leaf_logdet c ?al ?be) (dat x) = map_batched (spec_logdet c a b) (dat x)"
    by (rule batched.map_cong) (simp_all add: leaf_logdet_spec len)
  have y: "map_batched (\<lambda>v. map2 (+) v (map ((*) (?be * leaf_h c ?al v)) (leaf_diff c v))) (dat x)
             = map_batched (spec_forward c a b) (dat x)"
    by (rule batched.map_cong) (simp_all add: leaf_forward_spec len)
  show ?thesis
    unfolding ConditionedRadial_call_def c a b t
    by (simp add: forward_value_leafwise [OF len] ld y)
qed

section \<open>Softplus and the cache\<close>

lemma softplus_pos: "0 < softplus v"
proof (cases "v > 20")
  case True
  then show ?thesis by (simp add: softplus_def)
next
  case False
  have "1 < 1 + exp v" by simp
  then have "0 < ln (1 + exp v)" by (rule ln_gt_zero)
  with False show ?thesis by (simp add: softplus_def)
qed

lemma Transform_call_miss:
  assumes "\<not> is_cached_x self x"
  shows "Transform_call self nid x =
           (case ConditionedRadial_call self nid x of
              (Inl e, self', nid') \<Rightarrow> (Inl e, self', nid')
            | (Inr y, self', nid') \<Rightarrow> (Inr y, self'\<lparr>cached_x_y := Some (x, y)\<rparr>, nid'))"
  using assms
  by (auto simp add: Transform_call_def is_cached_x_def split: option.splits)

lemma Transform_call_hit:
  assumes "cached_x_y self = Some (x_old, y_old)" and "oid x = oid x_old"
  shows "Transform_call self nid x = (Inr y_old, self, nid)"
  using assms by (simp add: Transform_call_def)

lemma log_abs_det_jacobian_hit:
  assumes "is_cached_x self x"
  shows "log_abs_det_jacobian self nid x y = (Inr (cached_logDetJ self), self, nid)"
  using assms
  by (auto simp add: log_abs_det_jacobian_def is_cached_x_def Transform_call_def
      split: option.splits)

lemma log_abs_det_jacobian_miss:
  assumes "\<not> is_cached_x self x"
  shows "log_abs_det_jacobian self nid x y =
           (case Transform_call self nid x of
              (Inl e, self', nid') \<Rightarrow> (Inl e, self', nid')
            | (Inr y', self', nid') \<Rightarrow> (Inr (cached_logDetJ self'), self', nid'))"
  using assms by (simp add: log_abs_det_jacobian_def)

section \<open>Rounding\<close>

lemma round_even_upper: "of_int (round_even t) \<le> t + 1 / 2"
  unfolding round_even_def Let_def by (auto; linarith)

lemma round_even_lower: "t - 1 / 2 \<le> of_int (round_even t)"
  unfolding round_even_def Let_def by (auto; linarith)

lemma round_even_near_int:
  assumes "0 \<le> d" and "d < 1 / 2"
  shows "round_even (of_int n + d) = n"
proof -
  have "\<lfloor>of_int n + d\<rfloor> = n"
    using assms by (intro floor_unique) auto
  then show ?thesis
    using assms by (simp add: round_even_def)
qed

lemma round_even_nonneg: "0 \<le> t \<Longrightarrow> 0 \<le> round_even t"
  unfolding round_even_def Let_def by auto

lemma ulp_pos: "0 < ulp fmt x"
  by (simp add: ulp_def)

lemma fl_nonneg: "0 \<le> x \<Longrightarrow> 0 \<le> fl fmt x"
  using ulp_pos [of fmt x] by (simp add: fl_def round_even_nonneg)

lemma fl_upper: "fl fmt x \<le> x + ulp fmt x / 2"
proof (cases "x = 0")
  case True
  then show ?thesis using ulp_pos [of fmt x] by (simp add: fl_def)
next
  case False
  have "of_int (round_even (x / ulp fmt x)) * ulp fmt x \<le> (x / ulp fmt x + 1 / 2) * ulp fmt x"
    using round_even_upper [of "x / ulp fmt x"] ulp_pos [of fmt x]
    by (intro mult_right_mono) auto
  also have "\<dots> = x + ulp fmt x / 2"
    using ulp_pos [of fmt x] by (simp add: field_simps)
  finally show ?thesis using False by (simp add: fl_def)
qed

lemma fl_lower: "x - ulp fmt x / 2 \<le> fl fmt x"
proof (cases "x = 0")
  case True
  then show ?thesis using ulp_pos [of fmt x] by (simp add: fl_def)
next
  case False
  have "(x / ulp fmt x - 1 / 2) * ulp fmt x \<le> of_int (round_even (x / ulp fmt x)) * ulp fmt x"
    using round_even_lower [of "x / ulp fmt x"] ulp_pos [of fmt x]
    by (intro mult_right_mono) auto
  moreover have "(x / ulp fmt x - 1 / 2) * ulp fmt x = x - ulp fmt x / 2"
    using ulp_pos [of fmt x] by (simp add: field_simps)
  ultimately show ?thesis using False by (simp add: fl_def)
qed

lemma floor_log2_less:
  assumes "0 < y" and "y < 2 powr of_int k"
  shows "\<lfloor>log 2 y\<rfloor> < k"
proof -
  have "log 2 y < log 2 (2 powr of_int k)"
    using assms by (simp del: log_powr_cancel)
  then have "log 2 y < of_int k" by simp
  then show ?thesis by (simp add: floor_less_iff)
qed

lemma floor_log2_binade:
  assumes "2 powr of_int e \<le> y" and "y < 2 powr of_int (e + 1)"
  shows "\<lfloor>log 2 y\<rfloor> = e"
proof -
  have pos: "0 < y"
    using assms(1) by (rule less_le_trans [rotated]) simp
  have "log 2 (2 powr of_int e) \<le> log 2 y"
    using assms(1) pos by (simp del: log_powr_cancel)
  then have 1: "of_int e \<le> log 2 y" by simp
  have "log 2 y < log 2 (2 powr of_int (e + 1))"
    using assms(2) pos by (simp del: log_powr_cancel)
  then have 2: "log 2 y < of_int e + 1" by simp
  show ?thesis using 1 2 by (intro floor_unique) auto
qed

lemma ulp_small:
  assumes "0 < x" and "x < 2 powr of_int k" and "emin fmt < k"
  shows "ulp fmt x \<le> 2 powr of_int (k - int (prec fmt))"
proof -
  have "\<lfloor>log 2 \<bar>x\<bar>\<rfloor> < k"
    using floor_log2_less [of x k] assms by simp
  then have "max \<lfloor>log 2 \<bar>x\<bar>\<rfloor> (emin fmt) - (int (prec fmt) - 1) \<le> k - int (prec fmt)"
    using assms(3) by simp
  then show ?thesis
    unfolding ulp_def by (intro powr_mono) simp_all
qed

lemma ulp_binade:
  assumes "2 powr of_int e \<le> \<bar>x\<bar>" and "\<bar>x\<bar> < 2 powr of_int (e + 1)" and "emin fmt \<le> e"
  shows "ulp fmt x = 2 powr of_int (e - (int (prec fmt) - 1))"
proof -
  have "\<lfloor>log 2 \<bar>x\<bar>\<rfloor> = e"
    using assms(1,2) by (rule floor_log2_binade)
  then show ?thesis
    using assms(3) by (simp add: ulp_def max_def)
qed

lemma fl_one:
  assumes "emin fmt \<le> 0" and "0 < prec fmt"
  shows "fl fmt 1 = 1"
proof -
  have u: "ulp fmt 1 = 2 powr of_int (0 - (int (prec fmt) - 1))"
    by (rule ulp_binade) (use assms in simp_all)
  obtain m where m: "prec fmt = Suc m"
    using assms(2) by (cases "prec fmt") auto
  have u': "ulp fmt 1 = 1 / 2 ^ m"
    unfolding u m by (simp add: powr_minus powr_realpow field_simps)
  have "1 / ulp fmt 1 = of_int (2 ^ m) + 0"
    by (simp add: u')
  then have "round_even (1 / ulp fmt 1) = 2 ^ m"
    using round_even_near_int [of 0 "2 ^ m"] by simp
  then show ?thesis
    by (simp add: fl_def u')
qed

lemma powr_half_step: "2 powr of_int (k - 1) = 2 powr of_int k / (2::real)"
  by (simp add: powr_diff)

lemma fl_small:
  assumes "0 \<le> t" and "t < 2 powr of_int k" and "emin fmt < k"
  shows "0 \<le> fl fmt t \<and> fl fmt t \<le> t + 2 powr of_int (k - int (prec fmt)) / 2"
proof (cases "t = 0")
  case True
  then show ?thesis by (simp add: fl_def)
next
  case False
  with assms have "ulp fmt t \<le> 2 powr of_int (k - int (prec fmt))"
    by (intro ulp_small) simp_all
  with fl_upper [of fmt t] fl_nonneg [of t fmt] assms(1) show ?thesis by simp
qed

lemma fl_softplus_small:
  assumes b: "b \<le> 20" and emin: "emin fmt < k"
    and small: "exp b + 2 powr of_int (k - int (prec fmt)) < 2 powr of_int k"
  shows "0 \<le> fl_softplus fmt b \<and> fl_softplus fmt b < 2 powr of_int k"
proof -
  let ?d = "2 powr of_int (k - int (prec fmt)) / (2::real)"
  have d: "0 < ?d" by simp
  have eb: "exp b < 2 powr of_int k"
    using small d by linarith
  have 1: "0 \<le> fl fmt (exp b) \<and> fl fmt (exp b) \<le> exp b + ?d"
    using eb by (intro fl_small emin) simp_all
  let ?t = "ln (1 + fl fmt (exp b))"
  have t0: "0 \<le> ?t" using 1 by simp
  have t1: "?t \<le> fl fmt (exp b)"
    using 1 by (intro ln_add_one_self_le_self) simp
  have "?t < 2 powr of_int k"
    using t1 1 small d by linarith
  with t0 have 2: "0 \<le> fl fmt ?t \<and> fl fmt ?t \<le> ?t + ?d"
    by (intro fl_small emin)
  have "fl fmt ?t \<le> exp b + 2 powr of_int (k - int (prec fmt))"
    using 2 t1 1 by linarith
  with small have "fl fmt ?t < 2 powr of_int k" by linarith
  moreover have "fl_softplus fmt b = fl fmt ?t"
    using b by (simp add: fl_softplus_def)
  ultimately show ?thesis using 2 by simp
qed

lemma ln2_lower: "5 / 8 \<le> ln (2::real)"
proof -
  have "exp (5 / 16 :: real) \<le> 1 + 5 / 16 + (5 / 16)\<^sup>2"
    by (rule exp_bound) simp_all
  then have "exp (5 / 16 :: real) \<le> 361 / 256"
    by (simp add: power2_eq_square)
  then have "(exp (5 / 16 :: real))\<^sup>2 \<le> (361 / 256)\<^sup>2"
    by (intro power_mono) simp_all
  moreover have "(exp (5 / 16 :: real))\<^sup>2 = exp (5 / 8)"
    by (simp add: power2_eq_square flip: exp_add)
  ultimately have "exp (5 / 8 :: real) \<le> 2"
    by (simp add: power2_eq_square)
  then have "ln (exp (5 / 8 :: real)) \<le> ln 2"
    by (intro ln_mono) simp_all
  then show ?thesis by simp
qed

lemma ln2_upper: "ln (2::real) \<le> 3 / 4"
proof -
  have "1 + 3 / 4 + (3 / 4)\<^sup>2 / 2 \<le> exp (3 / 4 :: real)"
    by (rule exp_lower_Taylor_quadratic) simp
  then have "2 \<le> exp (3 / 4 :: real)"
    by (simp add: power2_eq_square)
  then have "ln 2 \<le> ln (exp (3 / 4 :: real))"
    by (intro ln_mono) simp_all
  then show ?thesis by simp
qed

lemma fl_softplus_zero:
  assumes prec: "3 \<le> prec fmt" and emin: "emin fmt \<le> - 1"
  shows "\<exists>n. fl_softplus fmt 0 = of_int n * 2 powr of_int (- int (prec fmt))
             \<and> 9 / 16 \<le> fl_softplus fmt 0 \<and> fl_softplus fmt 0 \<le> 13 / 16"
proof -
  have one: "fl fmt 1 = 1"
    using prec emin by (intro fl_one) simp_all
  have l1: "5 / 8 \<le> ln (2::real)" by (rule ln2_lower)
  have l2: "ln (2::real) \<le> 3 / 4" by (rule ln2_upper)
  have u: "ulp fmt (ln 2) = 2 powr of_int (- 1 - (int (prec fmt) - 1))"
  proof (rule ulp_binade)
    show "2 powr of_int (- 1) \<le> \<bar>ln (2::real)\<bar>"
      using l1 by (simp add: powr_minus)
    show "\<bar>ln (2::real)\<bar> < 2 powr of_int (- 1 + 1)"
      using l1 l2 by simp
    show "emin fmt \<le> - 1" by (rule emin)
  qed
  then have u: "ulp fmt (ln 2) = 2 powr of_int (- int (prec fmt))"
    by simp
  have "(2::real) powr of_int (- int (prec fmt)) \<le> 2 powr of_int (- 3 :: int)"
    using prec by (intro powr_mono) simp_all
  then have small: "2 powr of_int (- int (prec fmt)) \<le> (1 / 8 :: real)"
    by (simp add: powr_minus)
  have sp: "fl_softplus fmt 0 = fl fmt (ln 2)"
    by (simp add: fl_softplus_def one)
  have "ln (2::real) \<noteq> 0" using l1 by simp
  then have "fl fmt (ln 2) = of_int (round_even (ln 2 / ulp fmt (ln 2))) * 2 powr of_int (- int (prec fmt))"
    by (simp add: fl_def u)
  moreover have "9 / 16 \<le> fl fmt (ln 2)"
    using fl_lower [of "ln 2" fmt] l1 small by (simp add: u)
  moreover have "fl fmt (ln 2) \<le> 13 / 16"
    using fl_upper [of fmt "ln 2"] l2 small by (simp add: u)
  ultimately show ?thesis
    unfolding sp by blast
qed

lemma fl_absorbs:
  assumes prec: "3 \<le> prec fmt" and emin: "emin fmt \<le> - 1"
    and al: "al = of_int n * 2 powr of_int (- int (prec fmt))"
    and al_lo: "9 / 16 \<le> al" and al_hi: "al \<le> 13 / 16"
    and s0: "0 \<le> s" and s1: "s < 2 powr of_int (- int (prec fmt) - 1)"
  shows "fl fmt (- al + s) = - al"
proof -
  define u where "u = (2 powr of_int (- int (prec fmt)) :: real)"
  define x where "x = - al + s"
  have upos: "0 < u" by (simp add: u_def)
  have "u \<le> 2 powr of_int (- 3 :: int)"
    unfolding u_def using prec by (intro powr_mono) simp_all
  then have usmall: "u \<le> 1 / 8"
    by (simp add: powr_minus)
  have half: "2 powr of_int (- int (prec fmt) - 1) = u / 2"
    unfolding u_def by (rule powr_half_step)
  have s2: "s < u / 2" using s1 half by simp
  have abs: "\<bar>x\<bar> = al - s"
    using al_lo s2 usmall by (simp add: x_def)
  have "ulp fmt x = 2 powr of_int (- 1 - (int (prec fmt) - 1))"
  proof (rule ulp_binade)
    show "2 powr of_int (- 1) \<le> \<bar>x\<bar>"
      unfolding abs using al_lo s2 usmall by (simp add: powr_minus)
    show "\<bar>x\<bar> < 2 powr of_int (- 1 + 1)"
      unfolding abs using al_hi s0 by simp
    show "emin fmt \<le> - 1" by (rule emin)
  qed
  then have u: "ulp fmt x = u" by (simp add: u_def)
  have ne: "x \<noteq> 0"
    using abs al_lo s2 usmall by auto
  have aln: "al = of_int n * u" by (simp add: al u_def)
  have "x / u = of_int (- n) + s / u"
    using upos by (simp add: x_def aln field_simps)
  moreover have "0 \<le> s / u" "s / u < 1 / 2"
    using s0 s2 upos by (simp_all add: field_simps)
  ultimately have "round_even (x / u) = - n"
    using round_even_near_int [of "s / u" "- n"] by simp
  then have "fl fmt x = - al"
    using ne by (simp add: fl_def u aln)
  then show ?thesis by (simp only: x_def)
qed

lemma fl_beta_is_minus_alpha:
  assumes prec: "3 \<le> prec fmt" and emin: "emin fmt < - int (prec fmt) - 1"
    and b: "b \<le> 20"
    and small: "exp b + 2 powr of_int (- int (prec fmt) - 1 - int (prec fmt))
                  < 2 powr of_int (- int (prec fmt) - 1)"
  shows "fl fmt (- fl_softplus fmt 0 + fl_softplus fmt b) = - fl_softplus fmt 0
         \<and> 0 < fl_softplus fmt 0"
proof -
  have e1: "emin fmt \<le> - 1" using emin by simp
  obtain n where n: "fl_softplus fmt 0 = of_int n * 2 powr of_int (- int (prec fmt))"
    and lo: "9 / 16 \<le> fl_softplus fmt 0" and hi: "fl_softplus fmt 0 \<le> 13 / 16"
    using fl_softplus_zero [OF prec e1] by blast
  have s: "0 \<le> fl_softplus fmt b \<and> fl_softplus fmt b < 2 powr of_int (- int (prec fmt) - 1)"
    using b emin small by (rule fl_softplus_small)
  have "fl fmt (- fl_softplus fmt 0 + fl_softplus fmt b) = - fl_softplus fmt 0"
    using prec e1 n lo hi s by (intro fl_absorbs [where n = n]) simp_all
  with lo show ?thesis by simp
qed

lemma exp_quarter: "41 / 32 \<le> exp (1 / 4 :: real)"
  using exp_lower_Taylor_quadratic [of "1 / 4 :: real"] by (simp add: power2_eq_square)

lemma exp_minus_18: "exp (- 18 :: real) \<le> (32 / 41) ^ 72"
proof -
  have "exp (- 18 :: real) = (exp (- (1 / 4))) ^ 72"
    by (simp flip: exp_of_nat_mult)
  also have "\<dots> \<le> (32 / 41) ^ 72"
  proof (rule power_mono)
    have "exp (- (1 / 4) :: real) = 1 / exp (1 / 4)" by (simp add: exp_minus field_simps)
    also have "\<dots> \<le> 1 / (41 / 32)"
      using exp_quarter by (intro divide_left_mono) simp_all
    finally show "exp (- (1 / 4) :: real) \<le> 32 / 41" by simp
  qed simp
  finally show ?thesis .
qed

lemma exp_minus_40: "exp (- 40 :: real) \<le> (32 / 41) ^ 160"
proof -
  have "exp (- 40 :: real) = (exp (- (1 / 4))) ^ 160"
    by (simp flip: exp_of_nat_mult)
  also have "\<dots> \<le> (32 / 41) ^ 160"
  proof (rule power_mono)
    have "exp (- (1 / 4) :: real) = 1 / exp (1 / 4)" by (simp add: exp_minus field_simps)
    also have "\<dots> \<le> 1 / (41 / 32)"
      using exp_quarter by (intro divide_left_mono) simp_all
    finally show "exp (- (1 / 4) :: real) \<le> 32 / 41" by simp
  qed simp
  finally show ?thesis .
qed

lemma fl_beta_binary32: "fl binary32 (- fl_softplus binary32 0 + fl_softplus binary32 (- 18)) = - fl_softplus binary32 0
         \<and> 0 < fl_softplus binary32 0"
proof (rule fl_beta_is_minus_alpha)
  have "(32 / 41 :: real) ^ 72 + 1 / 2 ^ 49 < 1 / 2 ^ 25" by (simp add: power_divide)
  then show "exp (- 18 :: real) + 2 powr of_int (- int (prec binary32) - 1 - int (prec binary32))
                  < 2 powr of_int (- int (prec binary32) - 1)"
    using exp_minus_18 by (simp add: binary32_def powr_minus)
qed (simp_all add: binary32_def)

lemma fl_beta_binary64: "fl binary64 (- fl_softplus binary64 0 + fl_softplus binary64 (- 40)) = - fl_softplus binary64 0
         \<and> 0 < fl_softplus binary64 0"
proof (rule fl_beta_is_minus_alpha)
  have "(32 / 41 :: real) ^ 160 + 1 / 2 ^ 107 < 1 / 2 ^ 54" by (simp add: power_divide)
  then show "exp (- 40 :: real) + 2 powr of_int (- int (prec binary64) - 1 - int (prec binary64))
                  < 2 powr of_int (- int (prec binary64) - 1)"
    using exp_minus_40 by (simp add: binary64_def powr_minus)
qed (simp_all add: binary64_def)

lemma derived_parameters_fl_scalar:
  "derived_parameters_fl fmt (Leaf [a]) (Leaf [b])
     = Inr (Leaf [fl_softplus fmt a], Leaf [fl fmt (- fl_softplus fmt a + fl_softplus fmt b)])"
  by (simp add: derived_parameters_fl_def pointwise_def broadcast_last_def sbind_def)

section \<open>The claims of the specification\<close>

text \<open>
  C1. With a center \<open>c\<close> of dimension \<open>D\<close> and scalar raw parameters, for every input
  whose vectors have \<open>D\<close> entries, \<open>_call\<close> returns a new tensor that holds, for each
  vector \<open>v\<close> of the input, \<open>v + beta h (v - c)\<close> with \<open>alpha = softplus(alpha_prime)\<close>,
  \<open>beta = softplus(beta_prime) - alpha\<close>, \<open>r\<close> the Euclidean norm of \<open>v - c\<close> and
  \<open>h = 1/(alpha + r)\<close>; so does \<open>__call__\<close> for an input that is not the cached one.
\<close>

theorem forward_formula:
  assumes "x0 self = Leaf c" and "alpha_prime self = Leaf [a]" and "beta_prime self = Leaf [b]"
    and "\<forall>v \<in> set_batched (dat x). length v = length c"
  shows "fst (ConditionedRadial_call self nid x)
           = Inr \<lparr>oid = nid, dat = map_batched (spec_forward c a b) (dat x)\<rparr>
         \<and> (\<not> is_cached_x self x \<longrightarrow>
              fst (Transform_call self nid x)
                = Inr \<lparr>oid = nid, dat = map_batched (spec_forward c a b) (dat x)\<rparr>)"
proof -
  have "ConditionedRadial_call self nid x
          = (Inr \<lparr>oid = nid, dat = map_batched (spec_forward c a b) (dat x)\<rparr>,
             self\<lparr>cached_logDetJ := Some (map_batched (spec_logdet c a b) (dat x))\<rparr>,
             Suc nid)"
    using assms by (intro call_standard) simp_all
  then show ?thesis
    by (simp add: Transform_call_miss)
qed

theorem forward_formula_witness:
  "fst (ConditionedRadial_call (ConditionedRadial_init (Leaf [0, 0]) (Leaf [0]) (Leaf [1])) 5
          \<lparr>oid = 0, dat = Batch [Leaf [3, 4], Leaf [0, 0]]\<rparr>)
     = Inr \<lparr>oid = 5, dat = Batch [Leaf (spec_forward [0, 0] 0 1 [3, 4]),
                                   Leaf (spec_forward [0, 0] 0 1 [0, 0])]\<rparr>
   \<and> spec_r [0, 0] [3, 4] = 5"
proof -
  have "sqrt 25 = sqrt (5\<^sup>2)" by simp
  then have "sqrt 25 = 5" by (simp del: power2_eq_square)
  then have r: "spec_r [0, 0] [3, 4] = 5"
    by (simp add: spec_r_def lessThan_Suc numeral_2_eq_2)
  show ?thesis
    using forward_formula [of "ConditionedRadial_init (Leaf [0, 0]) (Leaf [0]) (Leaf [1])"
        "[0, 0]" 0 1 "\<lparr>oid = 0, dat = Batch [Leaf [3, 4], Leaf [0, 0]]\<rparr>" 5] r
    by (simp add: ConditionedRadial_init_def)
qed


text \<open>
  C2. Under the same conditions the log-determinant that \<open>_call\<close> stores holds, for each
  vector of the input, \<open>(D - 1) log1p(beta h) + log1p(beta h + beta h' r)\<close> with
  \<open>h' = - h\<^sup>2\<close>. \<open>log_abs_det_jacobian\<close> returns it for an input that is not the
  cached one, whatever its second argument, and also when it is given the input and
  the output of the forward call that came just before.
\<close>

theorem logdet_formula:
  assumes "x0 self = Leaf c" and "alpha_prime self = Leaf [a]" and "beta_prime self = Leaf [b]"
    and "\<forall>v \<in> set_batched (dat x). length v = length c"
  shows "cached_logDetJ (fst (snd (ConditionedRadial_call self nid x)))
           = Some (map_batched (spec_logdet c a b) (dat x))
         \<and> (\<not> is_cached_x self x \<longrightarrow>
              fst (log_abs_det_jacobian self nid x y)
                = Inr (Some (map_batched (spec_logdet c a b) (dat x)))
              \<and> (case Transform_call self nid x of
                    (Inl e, self', nid') \<Rightarrow> False
                  | (Inr y', self', nid') \<Rightarrow>
                      log_abs_det_jacobian self' nid' x y'
                        = (Inr (Some (map_batched (spec_logdet c a b) (dat x))), self', nid')))"
proof -
  let ?y = "\<lparr>oid = nid, dat = map_batched (spec_forward c a b) (dat x)\<rparr>"
  let ?self1 = "self\<lparr>cached_logDetJ := Some (map_batched (spec_logdet c a b) (dat x))\<rparr>"
  have call: "ConditionedRadial_call self nid x = (Inr ?y, ?self1, Suc nid)"
    using assms by (intro call_standard) simp_all
  have "is_cached_x (?self1\<lparr>cached_x_y := Some (x, ?y)\<rparr>) x"
    by (simp add: is_cached_x_def)
  then have "log_abs_det_jacobian (?self1\<lparr>cached_x_y := Some (x, ?y)\<rparr>) (Suc nid) x ?y
               = (Inr (cached_logDetJ (?self1\<lparr>cached_x_y := Some (x, ?y)\<rparr>)),
                  ?self1\<lparr>cached_x_y := Some (x, ?y)\<rparr>, Suc nid)"
    by (rule log_abs_det_jacobian_hit)
  then show ?thesis
    by (simp add: call log_abs_det_jacobian_miss Transform_call_miss)
qed

theorem logdet_formula_witness:
  "cached_logDetJ (fst (snd (ConditionedRadial_call
       (ConditionedRadial_init (Leaf [0, 0]) (Leaf [0]) (Leaf [1])) 5
       \<lparr>oid = 0, dat = Batch [Leaf [3, 4], Leaf [0, 0]]\<rparr>)))
     = Some (Batch [Leaf (spec_logdet [0, 0] 0 1 [3, 4]), Leaf (spec_logdet [0, 0] 0 1 [0, 0])])
   \<and> fst (log_abs_det_jacobian (ConditionedRadial_init (Leaf [0, 0]) (Leaf [0]) (Leaf [1])) 5
          \<lparr>oid = 0, dat = Batch [Leaf [3, 4], Leaf [0, 0]]\<rparr> \<lparr>oid = 1, dat = Leaf []\<rparr>)
     = Inr (Some (Batch [Leaf (spec_logdet [0, 0] 0 1 [3, 4]),
                         Leaf (spec_logdet [0, 0] 0 1 [0, 0])]))"
  using logdet_formula [of "ConditionedRadial_init (Leaf [0, 0]) (Leaf [0]) (Leaf [1])"
      "[0, 0]" 0 1 "\<lparr>oid = 0, dat = Batch [Leaf [3, 4], Leaf [0, 0]]\<rparr>" 5
      "\<lparr>oid = 1, dat = Leaf []\<rparr>"]
  by (simp add: ConditionedRadial_init_def is_cached_x_def)

text \<open>
  In exact arithmetic lines 47 and 48 give \<open>alpha = softplus(alpha_prime) > 0\<close> and
  \<open>beta + alpha = softplus(beta_prime) > 0\<close>, hence \<open>beta > - alpha\<close>, for all real
  \<open>alpha_prime\<close> and \<open>beta_prime\<close>.
\<close>

lemma derived_parameters_exact:
  "derived_parameters (Leaf [a]) (Leaf [b]) = Inr (Leaf [spec_alpha a], Leaf [spec_beta a b])
   \<and> spec_alpha a = softplus a \<and> 0 < spec_alpha a
   \<and> spec_beta a b + spec_alpha a = softplus b \<and> 0 < spec_beta a b + spec_alpha a
   \<and> - spec_alpha a < spec_beta a b"
proof -
  have "spec_beta a b + spec_alpha a = softplus b"
    by (simp add: spec_beta_def)
  moreover have "0 < softplus b" "0 < softplus a"
    by (rule softplus_pos)+
  ultimately show ?thesis
    by (simp add: spec_alpha_def derived_parameters_scalar [unfolded spec_alpha_def])
qed

text \<open>
  C3. In the arithmetic of the code the invertibility condition does not hold for all
  raw parameters. With \<open>alpha_prime = 0\<close> and \<open>beta_prime = - 18\<close> in \<open>binary32\<close>, and
  with \<open>alpha_prime = 0\<close> and \<open>beta_prime = - 40\<close> in \<open>binary64\<close>, \<open>softplus(beta_prime)\<close>
  is less than half the distance between \<open>alpha\<close> and its neighbours, the addition of
  line 48 rounds back to \<open>- alpha\<close>, and lines 47 and 48 compute \<open>alpha > 0\<close> and
  \<open>beta = - alpha\<close>: \<open>beta > - alpha\<close> is false, against the comment of line 46 and
  the docstring of \<open>Radial\<close>, which say that the condition is enforced.
\<close>

theorem invertibility_lost_to_rounding:
  "derived_parameters_fl binary32 (Leaf [0]) (Leaf [- 18])
     = Inr (Leaf [fl_softplus binary32 0], Leaf [- fl_softplus binary32 0])
   \<and> 0 < fl_softplus binary32 0
   \<and> derived_parameters_fl binary64 (Leaf [0]) (Leaf [- 40])
       = Inr (Leaf [fl_softplus binary64 0], Leaf [- fl_softplus binary64 0])
   \<and> 0 < fl_softplus binary64 0"
  using fl_beta_binary32 fl_beta_binary64
  by (simp add: derived_parameters_fl_scalar)

text \<open>
  C4. When \<open>log_abs_det_jacobian\<close> is given the cached input object together with an
  output object that is not the cached one, the test of line 77 takes the branch that
  calls \<open>self(x)\<close>, but the parent's \<open>__call__\<close> finds \<open>x\<close> in its cache and returns
  without calling \<open>_call\<close>: the stored log-determinant is returned, and the instance,
  its cache and the identity counter are as before. The comment of lines 79 and 80
  says that this call runs \<open>_call\<close> and updates the cache.
\<close>

theorem same_input_other_output_skips_forward:
  assumes "cached_x_y self = Some (x_old, y_old)" and "oid x = oid x_old"
    and "oid y \<noteq> oid y_old"
  shows "\<not> is_cached_y self y
         \<and> log_abs_det_jacobian self nid x y = (Inr (cached_logDetJ self), self, nid)"
  using assms
  by (simp add: log_abs_det_jacobian_def is_cached_y_def is_cached_x_def Transform_call_hit)


theorem same_input_other_output_skips_forward_witness:
  "(let self = ConditionedRadial_init (Leaf [0, 0]) (Leaf [0]) (Leaf [0]);
        x = \<lparr>oid = 0, dat = Leaf [3, 4]\<rparr>;
        (r, self1, nid1) = Transform_call self 1 x;
        y' = \<lparr>oid = 7, dat = Leaf [3, 4]\<rparr>
    in nid1 = 2 \<and> map_sum id oid r = Inr 1 \<and> cached_x_y self1 \<noteq> None
       \<and> \<not> is_cached_y self1 y'
       \<and> log_abs_det_jacobian self1 nid1 x y' = (Inr (cached_logDetJ self1), self1, nid1))"
proof -
  let ?self = "ConditionedRadial_init (Leaf [0, 0]) (Leaf [0]) (Leaf [0])"
  let ?x = "\<lparr>oid = 0, dat = Leaf [3, 4]\<rparr>"
  let ?y = "\<lparr>oid = 1, dat = Leaf (spec_forward [0, 0] 0 0 [3, 4])\<rparr>"
  let ?self1 = "?self\<lparr>cached_logDetJ := Some (Leaf (spec_logdet [0, 0] 0 0 [3, 4])),
                       cached_x_y := Some (?x, ?y)\<rparr>"
  have "ConditionedRadial_call ?self 1 ?x
          = (Inr \<lparr>oid = 1, dat = map_batched (spec_forward [0, 0] 0 0) (dat ?x)\<rparr>,
             ?self\<lparr>cached_logDetJ := Some (map_batched (spec_logdet [0, 0] 0 0) (dat ?x))\<rparr>,
             Suc 1)"
    by (rule call_standard) (simp_all add: ConditionedRadial_init_def)
  moreover have "\<not> is_cached_x ?self ?x"
    by (simp add: is_cached_x_def ConditionedRadial_init_def)
  ultimately have t: "Transform_call ?self 1 ?x = (Inr ?y, ?self1, 2)"
    by (simp add: Transform_call_miss)
  have "cached_x_y ?self1 = Some (?x, ?y)" by simp
  then have "\<not> is_cached_y ?self1 \<lparr>oid = 7, dat = Leaf [3, 4]\<rparr>
        \<and> log_abs_det_jacobian ?self1 2 ?x \<lparr>oid = 7, dat = Leaf [3, 4]\<rparr>
            = (Inr (cached_logDetJ ?self1), ?self1, 2)"
    by (rule same_input_other_output_skips_forward) simp_all
  then show ?thesis
    unfolding Let_def t prod.case by simp
qed

text \<open>
  C5. For every instance and every argument, \<open>_inverse\<close> raises \<open>KeyError\<close>; it returns
  no value and leaves the instance and the identity counter as they were.
\<close>

theorem inverse_always_raises:
  "ConditionedRadial_inverse self nid y = (Inl KeyError, self, nid)
   \<and> (\<forall>v. fst (ConditionedRadial_inverse self nid y) \<noteq> Inr v)"
  by (simp add: ConditionedRadial_inverse_def)

theorem inverse_always_raises_witness:
  "ConditionedRadial_inverse (ConditionedRadial_init (Leaf [0, 0]) (Leaf [0]) (Leaf [1])) 3
      \<lparr>oid = 2, dat = Leaf [3, 4]\<rparr>
     = (Inl KeyError, ConditionedRadial_init (Leaf [0, 0]) (Leaf [0]) (Leaf [1]), 3)"
  using inverse_always_raises [of "ConditionedRadial_init (Leaf [0, 0]) (Leaf [0]) (Leaf [1])" 3
      "\<lparr>oid = 2, dat = Leaf [3, 4]\<rparr>"]
  by (rule conjunct1)

text \<open>
  C9. For a fixed instance and a fixed input \<open>x\<close>, \<open>log_abs_det_jacobian\<close> gives the
  same result, the same instance afterwards and the same identity counter for any two
  second arguments, whatever their contents and identities.
\<close>

theorem log_abs_det_jacobian_ignores_output:
  "log_abs_det_jacobian self nid x y = log_abs_det_jacobian self nid x y'"
proof (cases "is_cached_x self x")
  case True
  then show ?thesis by (simp add: log_abs_det_jacobian_hit)
next
  case False
  then show ?thesis by (simp add: log_abs_det_jacobian_miss)
qed

theorem log_abs_det_jacobian_ignores_output_witness:
  "log_abs_det_jacobian (ConditionedRadial_init (Leaf [0, 0]) (Leaf [0]) (Leaf [1])) 2
      \<lparr>oid = 0, dat = Leaf [3, 4]\<rparr> \<lparr>oid = 1, dat = Leaf [5, 6]\<rparr>
     = log_abs_det_jacobian (ConditionedRadial_init (Leaf [0, 0]) (Leaf [0]) (Leaf [1])) 2
      \<lparr>oid = 0, dat = Leaf [3, 4]\<rparr> \<lparr>oid = 0, dat = Batch []\<rparr>"
  by (rule log_abs_det_jacobian_ignores_output)

lemma ConditionedRadial_call_frame:
  "\<exists>l. snd (ConditionedRadial_call self nid x) = (self\<lparr>cached_logDetJ := l\<rparr>, nid)
       \<or> snd (ConditionedRadial_call self nid x) = (self\<lparr>cached_logDetJ := l\<rparr>, Suc nid)"
proof (cases "radial_terms (x0 self) (alpha_prime self) (beta_prime self) (dat x)")
  case (Inl e)
  then have "snd (ConditionedRadial_call self nid x) = (self\<lparr>cached_logDetJ := cached_logDetJ self\<rparr>, nid)"
    by (simp add: ConditionedRadial_call_def)
  then show ?thesis by blast
next
  case (Inr t)
  obtain diff beta_h logDetJ where t: "t = (diff, beta_h, logDetJ)"
    by (cases t) auto
  show ?thesis
  proof (cases "sbind (mul_t beta_h diff) (\<lambda>bd. add_t (dat x) bd)")
    case (Inl e)
    with Inr t have "snd (ConditionedRadial_call self nid x) = (self\<lparr>cached_logDetJ := Some logDetJ\<rparr>, nid)"
      by (simp add: ConditionedRadial_call_def)
    then show ?thesis by blast
  next
    case (Inr y)
    with \<open>radial_terms (x0 self) (alpha_prime self) (beta_prime self) (dat x) = Inr t\<close> t
    have "snd (ConditionedRadial_call self nid x) = (self\<lparr>cached_logDetJ := Some logDetJ\<rparr>, Suc nid)"
      by (simp add: ConditionedRadial_call_def)
    then show ?thesis by blast
  qed
qed

lemma Transform_call_frame:
  "\<exists>c l. fst (snd (Transform_call self nid x)) = self\<lparr>cached_x_y := c, cached_logDetJ := l\<rparr>"
proof (cases "is_cached_x self x")
  case True
  then have "Transform_call self nid x = (Inr (snd (the (cached_x_y self))), self, nid)"
    by (auto simp add: is_cached_x_def Transform_call_def split: option.splits)
  then have "fst (snd (Transform_call self nid x))
               = self\<lparr>cached_x_y := cached_x_y self, cached_logDetJ := cached_logDetJ self\<rparr>"
    by simp
  then show ?thesis by blast
next
  case False
  obtain r self' nid' where call: "ConditionedRadial_call self nid x = (r, self', nid')"
    by (cases "ConditionedRadial_call self nid x") auto
  from ConditionedRadial_call_frame [of self nid x] call
  obtain l where l: "self' = self\<lparr>cached_logDetJ := l\<rparr>" by auto
  show ?thesis
  proof (cases r)
    case (Inl e)
    with False call l have "fst (snd (Transform_call self nid x))
               = self\<lparr>cached_x_y := cached_x_y self, cached_logDetJ := l\<rparr>"
      by (simp add: Transform_call_miss)
    then show ?thesis by blast
  next
    case (Inr y)
    with False call l have "fst (snd (Transform_call self nid x))
               = self\<lparr>cached_x_y := Some (x, y), cached_logDetJ := l\<rparr>"
      by (simp add: Transform_call_miss)
    then show ?thesis by blast
  qed
qed

text \<open>
  C10. After \<open>_call\<close> the instance differs from the instance before at most in
  \<open>_cached_logDetJ\<close>, and after \<open>__call__\<close> at most in \<open>_cached_x_y\<close> and
  \<open>_cached_logDetJ\<close>, whether the call returns or raises; \<open>x0\<close>, \<open>alpha_prime\<close> and
  \<open>beta_prime\<close> are unchanged.
\<close>

theorem forward_changes_only_the_cache:
  "(\<exists>l. fst (snd (ConditionedRadial_call self nid x)) = self\<lparr>cached_logDetJ := l\<rparr>)
   \<and> (\<exists>c l. fst (snd (Transform_call self nid x)) = self\<lparr>cached_x_y := c, cached_logDetJ := l\<rparr>)
   \<and> x0 (fst (snd (Transform_call self nid x))) = x0 self
   \<and> alpha_prime (fst (snd (Transform_call self nid x))) = alpha_prime self
   \<and> beta_prime (fst (snd (Transform_call self nid x))) = beta_prime self
   \<and> x0 (fst (snd (ConditionedRadial_call self nid x))) = x0 self
   \<and> alpha_prime (fst (snd (ConditionedRadial_call self nid x))) = alpha_prime self
   \<and> beta_prime (fst (snd (ConditionedRadial_call self nid x))) = beta_prime self"
proof -
  from ConditionedRadial_call_frame [of self nid x]
  obtain l where l: "fst (snd (ConditionedRadial_call self nid x)) = self\<lparr>cached_logDetJ := l\<rparr>"
    by auto
  from Transform_call_frame [of self nid x]
  obtain c' l' where c: "fst (snd (Transform_call self nid x))
      = self\<lparr>cached_x_y := c', cached_logDetJ := l'\<rparr>"
    by auto
  have "\<exists>l. fst (snd (ConditionedRadial_call self nid x)) = self\<lparr>cached_logDetJ := l\<rparr>"
    using l by blast
  moreover have "\<exists>c l. fst (snd (Transform_call self nid x))
      = self\<lparr>cached_x_y := c, cached_logDetJ := l\<rparr>"
    using c by blast
  ultimately show ?thesis
    by (simp add: l c)
qed


theorem forward_changes_only_the_cache_witness:
  "x0 (fst (snd (Transform_call (ConditionedRadial_init (Leaf [0, 0]) (Leaf [0]) (Leaf [1])) 1
          \<lparr>oid = 0, dat = Leaf [3, 4]\<rparr>))) = Leaf [0, 0]
   \<and> alpha_prime (fst (snd (Transform_call (ConditionedRadial_init (Leaf [0, 0]) (Leaf [0]) (Leaf [1])) 1
          \<lparr>oid = 0, dat = Leaf [3, 4]\<rparr>))) = Leaf [0]
   \<and> beta_prime (fst (snd (Transform_call (ConditionedRadial_init (Leaf [0, 0]) (Leaf [0]) (Leaf [1])) 1
          \<lparr>oid = 0, dat = Leaf [3, 4]\<rparr>))) = Leaf [1]"
  using forward_changes_only_the_cache [of "ConditionedRadial_init (Leaf [0, 0]) (Leaf [0]) (Leaf [1])" 1
      "\<lparr>oid = 0, dat = Leaf [3, 4]\<rparr>"]
  by (simp add: ConditionedRadial_init_def)




lemma forward_value_standard:
  assumes "x0 self = Leaf c" and "alpha_prime self = Leaf [a]" and "beta_prime self = Leaf [b]"
    and "\<And>v. v \<in> set_batched t \<Longrightarrow> length v = length c"
  shows "forward_value self t = Inr (map_batched (spec_forward c a b) t)"
  using call_standard [of self c a b "\<lparr>oid = 0, dat = t\<rparr>" 0] assms
  by (simp add: forward_value_def)

text \<open>
  C7. With a center of dimension \<open>D\<close> and scalar raw parameters, the forward map of a
  batch whose vectors have \<open>D\<close> entries is the batch of the forward maps of its
  members, and each of them returns.
\<close>

theorem batch_invariance:
  assumes "x0 self = Leaf c" and "alpha_prime self = Leaf [a]" and "beta_prime self = Leaf [b]"
    and "\<forall>t \<in> set ts. \<forall>v \<in> set_batched t. length v = length c"
  shows "forward_value self (Batch ts)
           = map_sum id Batch (sequence (map (forward_value self) ts))
         \<and> (\<forall>t \<in> set ts. \<exists>y. forward_value self t = Inr y)"
proof -
  have each: "forward_value self t = Inr (map_batched (spec_forward c a b) t)"
    if "t \<in> set ts" for t
    using assms that by (intro forward_value_standard) auto
  then have "sequence (map (forward_value self) ts)
               = Inr (map (map_batched (spec_forward c a b)) ts)"
    by (rule sequence_map_Inr)
  moreover have "forward_value self (Batch ts)
               = Inr (map_batched (spec_forward c a b) (Batch ts))"
    using assms by (intro forward_value_standard) auto
  ultimately show ?thesis
    using each by simp
qed

theorem batch_invariance_witness:
  "forward_value (ConditionedRadial_init (Leaf [0, 0]) (Leaf [0]) (Leaf [1]))
       (Batch [Leaf [3, 4], Leaf [0, 0]])
     = map_sum id Batch (sequence
         [forward_value (ConditionedRadial_init (Leaf [0, 0]) (Leaf [0]) (Leaf [1])) (Leaf [3, 4]),
          forward_value (ConditionedRadial_init (Leaf [0, 0]) (Leaf [0]) (Leaf [1])) (Leaf [0, 0])])"
  using batch_invariance [of "ConditionedRadial_init (Leaf [0, 0]) (Leaf [0]) (Leaf [1])"
      "[0, 0]" 0 1 "[Leaf [3, 4], Leaf [0, 0]]"]
  by (simp add: ConditionedRadial_init_def)

lemma call_method_frame:
  assumes "call_method ref m w = Some (res, w')" and "r \<noteq> ref"
  shows "engines w' r = engines w r"
  using assms
  by (auto simp add: call_method_def split: option.splits prod.splits)

text \<open>
  C8. When the network returns three tensors, \<open>condition\<close> calls it once (the state of
  the network is the one after that call), returns a reference that was not in use,
  and stores there an instance with the three tensors as parameters and an empty cache.
  Every other instance of the store is unchanged, the \<open>ConditionalRadial\<close> is returned
  as it was, a later \<open>condition\<close> returns another reference, and a method run on an
  instance at another reference leaves the new instance as it is.
\<close>

theorem condition_constructs_fresh_engine:
  assumes "nn self (net w) context = ([p0, a, b], s)" and "store_ok w"
  shows "(let (r, self', w') = condition self context w in
            r = Inr (next_id w) \<and> self' = self
          \<and> engines w (next_id w) = None
          \<and> engines w' (next_id w) = Some (ConditionedRadial_init p0 a b)
          \<and> (\<forall>q. q \<noteq> next_id w \<longrightarrow> engines w' q = engines w q)
          \<and> net w' = s \<and> next_id w' = Suc (next_id w) \<and> store_ok w'
          \<and> (\<forall>context2. fst (condition self context2 w') \<noteq> Inr (next_id w))
          \<and> (\<forall>q (m :: ConditionedRadial \<Rightarrow> nat \<Rightarrow> 'r \<times> ConditionedRadial \<times> nat) res w2.
                q \<noteq> next_id w \<longrightarrow> call_method q m w' = Some (res, w2) \<longrightarrow>
                engines w2 (next_id w) = Some (ConditionedRadial_init p0 a b)))
         \<and> x0 (ConditionedRadial_init p0 a b) = p0
         \<and> alpha_prime (ConditionedRadial_init p0 a b) = a
         \<and> beta_prime (ConditionedRadial_init p0 a b) = b
         \<and> cached_x_y (ConditionedRadial_init p0 a b) = None
         \<and> cached_logDetJ (ConditionedRadial_init p0 a b) = None"
proof -
  let ?w' = "w\<lparr>net := s, engines := (engines w)(next_id w \<mapsto> ConditionedRadial_init p0 a b),
               next_id := Suc (next_id w)\<rparr>"
  have c: "condition self context w = (Inr (next_id w), self, ?w')"
    using assms(1) by (simp add: condition_def)
  have fresh: "engines w (next_id w) = None"
  proof (rule ccontr)
    assume "engines w (next_id w) \<noteq> None"
    then have "next_id w \<in> dom (engines w)" by auto
    with assms(2) have "next_id w < next_id w" unfolding store_ok_def by blast
    then show False by simp
  qed
  have ok: "store_ok ?w'"
    using assms(2) by (auto simp add: store_ok_def less_Suc_eq dest: bspec)
  have other: "fst (condition self context2 ?w') \<noteq> Inr (next_id w)" for context2
    by (auto simp add: condition_def Let_def split: prod.splits list.splits)
  have frame: "engines w2 (next_id w) = Some (ConditionedRadial_init p0 a b)"
    if "q \<noteq> next_id w" and "call_method q m ?w' = Some (res, w2)"
    for q and m :: "ConditionedRadial \<Rightarrow> nat \<Rightarrow> 'r \<times> ConditionedRadial \<times> nat" and res w2
  proof -
    have "engines w2 (next_id w) = engines ?w' (next_id w)"
      using that(2) by (rule call_method_frame) (use that(1) in simp)
    then show ?thesis by simp
  qed
  show ?thesis
    unfolding c Let_def prod.case
    using fresh ok other frame by (simp add: ConditionedRadial_init_def)
qed

theorem condition_constructs_fresh_engine_witness:
  "(let self = \<lparr>nn = \<lambda>n ctx. ([ctx, Leaf [real n], Leaf [1]], Suc n)\<rparr>;
        w = \<lparr>next_id = 4, engines = Map.empty, net = 0\<rparr>;
        (r, self', w') = condition self (Leaf [1, 2]) w
    in r = Inr 4 \<and> net w' = 1 \<and> next_id w' = 5
       \<and> engines w' 4 = Some (ConditionedRadial_init (Leaf [1, 2]) (Leaf [0]) (Leaf [1])))"
  using condition_constructs_fresh_engine [of "\<lparr>nn = \<lambda>n ctx. ([ctx, Leaf [real n], Leaf [1]], Suc n)\<rparr>"
      "\<lparr>next_id = 4, engines = Map.empty, net = 0\<rparr>" "Leaf [1, 2]" "Leaf [1, 2]" "Leaf [0]" "Leaf [1]" 1]
  by (simp add: store_ok_def condition_def)

end
